theory Spec2Isabelle
  imports Complex_Main "HOL-Library.Sublist"
begin

section \<open>Errors\<close>

text \<open>
  What the script and the platform functions it calls can throw: the errors of
  \<^verbatim>\<open>JSON.parse\<close> and of \<^verbatim>\<open>new Set\<close>, and the error of d3 for a link whose end is not a
  node. \<open>Unrepresented\<close> is not an error of the program: it marks a result that the types
  of this development cannot hold.
\<close>

datatype error = SyntaxError | TypeError | NodeNotFound | Unrepresented

section \<open>Graph data of \<^verbatim>\<open>graph.inline.ts\<close>\<close>

text \<open>
  Identifiers (\<^verbatim>\<open>SimpleSlug\<close>, \<^verbatim>\<open>FullSlug\<close>) are JavaScript strings and are modelled
  as \<^typ>\<open>string\<close>. \<^verbatim>\<open>LinkData\<close> and the fields of \<^verbatim>\<open>ContentDetails\<close> that the
  script reads become records; \<^verbatim>\<open>details.links\<close> may be missing (the script writes
  \<^verbatim>\<open>details.links ?? []\<close>), so it is an option.
\<close>

record LinkData =
  source :: string
  target :: string

record ContentDetails =
  title :: string
  links :: "string list option"
  tags :: "string list"

text \<open>
  The fields \<^verbatim>\<open>id\<close>, \<^verbatim>\<open>text\<close> and \<^verbatim>\<open>tags\<close> of \<^verbatim>\<open>NodeData\<close> carry a prime, since
  the plain names are taken.
\<close>

record NodeData =
  id' :: string
  text' :: string
  tags' :: "string list"

text \<open>
  The content index \<^verbatim>\<open>data\<close> is a JavaScript object; it is modelled by the list of
  its entries in the order of \<^verbatim>\<open>Object.entries\<close>. The options that the graph
  construction reads from \<^verbatim>\<open>graph.dataset["cfg"]\<close> are collected in a record. The
  hop limit \<^verbatim>\<open>depth\<close> is an integer; \<^verbatim>\<open>depth--\<close> is taken as subtraction on the
  integers, which is what JavaScript computes for integers up to \<open>2\<^sup>5\<^sup>3\<close>.
\<close>

type_synonym content_index = "(string \<times> ContentDetails) list"

record cfg =
  depth :: int
  showTags :: bool
  removeTags :: "string list"

subsection \<open>Edge construction (lines 52 to 78)\<close>

text \<open>
  \<^verbatim>\<open>simplifySlug\<close> lives in \<^verbatim>\<open>util/path\<close> and is a parameter \<open>simplify\<close> of the
  model. \<open>validLinks\<close> is the set of simplified keys. One iteration of the outer
  \<^verbatim>\<open>for\<close> loop maps the pair of arrays \<^verbatim>\<open>(links, tags)\<close> to its new value.
\<close>

definition validLinks :: "(string \<Rightarrow> string) \<Rightarrow> content_index \<Rightarrow> string set" where
  "validLinks simplify data = set (map (\<lambda>(k, d). simplify k) data)"

definition localTags :: "(string \<Rightarrow> string) \<Rightarrow> cfg \<Rightarrow> ContentDetails \<Rightarrow> string list" where
  "localTags simplify c details =
     map (\<lambda>tag. simplify (''tags/'' @ tag))
       (filter (\<lambda>tag. tag \<notin> set (removeTags c)) (ContentDetails.tags details))"

definition page_step ::
  "(string \<Rightarrow> string) \<Rightarrow> cfg \<Rightarrow> string set \<Rightarrow> LinkData list \<times> string list \<Rightarrow>
   string \<times> ContentDetails \<Rightarrow> LinkData list \<times> string list" where
  "page_step simplify c valid acc entry =
     (let ls = fst acc; ts = snd acc;
          src = simplify (fst entry);
          outgoing = (case ContentDetails.links (snd entry) of None \<Rightarrow> [] | Some ds \<Rightarrow> ds);
          ls1 = ls @ map (\<lambda>dest. \<lparr>source = src, target = dest\<rparr>)
                        (filter (\<lambda>dest. dest \<in> valid) outgoing)
      in if showTags c
         then (let lt = localTags simplify c (snd entry)
               in (ls1 @ map (\<lambda>tag. \<lparr>source = src, target = tag\<rparr>) lt,
                   ts @ filter (\<lambda>tag. tag \<notin> set ts) lt))
         else (ls1, ts))"

definition build_links ::
  "(string \<Rightarrow> string) \<Rightarrow> cfg \<Rightarrow> content_index \<Rightarrow> LinkData list \<times> string list" where
  "build_links simplify c data =
     foldl (page_step simplify c (validLinks simplify data)) ([], []) data"

subsection \<open>Bounded neighbourhood extraction (lines 80 to 99)\<close>

text \<open>
  The work list holds identifiers and the marker string \<^verbatim>\<open>"__SENTINEL"\<close> side by
  side, and the script tells them apart by string equality, so the model keeps both in one
  list of strings. A JavaScript \<^verbatim>\<open>Set\<close> iterates in insertion order: it is a list
  without repetitions, extended by \<open>set_add\<close>.
\<close>

definition SENTINEL :: string where
  "SENTINEL = ''__SENTINEL''"

definition set_add :: "'a \<Rightarrow> 'a list \<Rightarrow> 'a list" where
  "set_add x xs = (if x \<in> set xs then xs else xs @ [x])"

definition pushed :: "LinkData list \<Rightarrow> string \<Rightarrow> string list" where
  "pushed ls cur =
     map target (filter (\<lambda>l. source l = cur) ls) @ map source (filter (\<lambda>l. target l = cur) ls)"

text \<open>
  The \<^verbatim>\<open>while\<close> loop on the state \<^verbatim>\<open>(depth, wl, neighbourhood)\<close>. Started on a work
  list without the marker it may run forever, so it is a partial function: \<open>None\<close>
  means that the loop does not return.
\<close>

partial_function (option) bfs_loop ::
  "LinkData list \<Rightarrow> int \<Rightarrow> string list \<Rightarrow> string list \<Rightarrow> (int \<times> string list \<times> string list) option"
  where
  "bfs_loop ls d wl nb =
     (if d \<ge> 0 \<and> wl \<noteq> []
      then (if hd wl = SENTINEL
            then bfs_loop ls (d - 1) (tl wl @ [SENTINEL]) nb
            else bfs_loop ls d (tl wl @ pushed ls (hd wl)) (set_add (hd wl) nb))
      else Some (d, wl, nb))"

definition neighbourhood ::
  "(string \<Rightarrow> string) \<Rightarrow> cfg \<Rightarrow> content_index \<Rightarrow> string \<Rightarrow> string list option" where
  "neighbourhood simplify c data slug =
     (let lt = build_links simplify c data
      in if depth c \<ge> 0
         then map_option (\<lambda>st. snd (snd st)) (bfs_loop (fst lt) (depth c) [slug, SENTINEL] [])
         else Some (let nb = foldl (\<lambda>nb k. set_add (simplify k) nb) [] (map fst data)
                    in if showTags c then foldl (\<lambda>nb tag. set_add tag nb) nb (snd lt) else nb))"

declare bfs_loop.simps [code]

subsection \<open>Result filtering (lines 101 to 111)\<close>

text \<open>
  \<^verbatim>\<open>data[url]\<close> looks the identifier up among the keys of the index as they are, not
  among the simplified keys.
\<close>

record GraphData =
  nodes :: "NodeData list"
  links :: "LinkData list"

definition mk_node :: "content_index \<Rightarrow> string \<Rightarrow> NodeData" where
  "mk_node data url =
     \<lparr>id' = url,
      text' = (if prefix ''tags/'' url then ''#'' @ drop 5 url
               else (case map_of data url of None \<Rightarrow> url | Some d \<Rightarrow> title d)),
      tags' = (case map_of data url of None \<Rightarrow> [] | Some d \<Rightarrow> ContentDetails.tags d)\<rparr>"

definition mk_graphData :: "content_index \<Rightarrow> LinkData list \<Rightarrow> string list \<Rightarrow> GraphData" where
  "mk_graphData data ls nb =
     \<lparr>nodes = map (mk_node data) nb,
      links = filter (\<lambda>l. source l \<in> set nb \<and> target l \<in> set nb) ls\<rparr>"

text \<open>
  \<open>graphData\<close> is the value of \<^verbatim>\<open>graphData\<close> in \<^verbatim>\<open>renderGraph\<close>; lines 544 to 603 of
  \<^verbatim>\<open>renderTreeGraph\<close> repeat lines 52 to 111 word for word, so the same function stands
  for both. Its argument \<open>slug\<close> is \<^verbatim>\<open>simplifySlug(fullSlug)\<close>.
\<close>

definition graphData ::
  "(string \<Rightarrow> string) \<Rightarrow> cfg \<Rightarrow> content_index \<Rightarrow> string \<Rightarrow> GraphData option" where
  "graphData simplify c data slug =
     map_option (mk_graphData data (fst (build_links simplify c data)))
       (neighbourhood simplify c data slug)"

subsection \<open>The force-directed renderer (lines 113 to 197)\<close>

text \<open>
  \<^verbatim>\<open>links.filter\<close> builds a new array of the same link objects, and
  \<^verbatim>\<open>d3.forceLink(graphData.links)\<close>, once \<^verbatim>\<open>simulation.force("link", ...)\<close> initialises
  it, overwrites in each object of its array a \<^verbatim>\<open>source\<close> or \<^verbatim>\<open>target\<close> that is not
  an object by the node of that identifier (the script itself reads \<^verbatim>\<open>d.source.id\<close> and
  \<^verbatim>\<open>d.source.x\<close> from these objects afterwards). \<^verbatim>\<open>nodeRadius\<close> reads the objects
  of \<^verbatim>\<open>links\<close> after that, so the objects live in a store: the address of a link object
  is its position in \<^verbatim>\<open>links\<close>, and an end of a link is an identifier or a node.
\<close>

datatype endpoint = Slug string | Node NodeData

record LinkObj =
  source' :: endpoint
  target' :: endpoint

definition alloc :: "LinkData list \<Rightarrow> LinkObj list" where
  "alloc ls = map (\<lambda>l. \<lparr>source' = Slug (source l), target' = Slug (target l)\<rparr>) ls"

text \<open>
  The addresses, in \<^verbatim>\<open>links\<close>, of the objects that \<^verbatim>\<open>links.filter\<close> puts into
  \<^verbatim>\<open>graphData.links\<close>.
\<close>

definition graph_link_addrs :: "LinkData list \<Rightarrow> string list \<Rightarrow> nat list" where
  "graph_link_addrs ls nb =
     filter (\<lambda>a. source (ls ! a) \<in> set nb \<and> target (ls ! a) \<in> set nb) [0..<length ls]"

text \<open>
  d3 keeps the nodes in a \<^verbatim>\<open>Map\<close> from identifier to node (a later node of the same
  identifier replaces an earlier one) and throws when an identifier has no node.
\<close>

definition find_node :: "NodeData list \<Rightarrow> string \<Rightarrow> NodeData option" where
  "find_node ns s = (case filter (\<lambda>n. id' n = s) ns of [] \<Rightarrow> None | m # ms \<Rightarrow> Some (last (m # ms)))"

definition resolve :: "NodeData list \<Rightarrow> endpoint \<Rightarrow> error + endpoint" where
  "resolve ns e =
     (case e of Node n \<Rightarrow> Inr (Node n)
      | Slug s \<Rightarrow> (case find_node ns s of None \<Rightarrow> Inl NodeNotFound | Some n \<Rightarrow> Inr (Node n)))"

fun initialize :: "NodeData list \<Rightarrow> nat list \<Rightarrow> LinkObj list \<Rightarrow> error + LinkObj list" where
  "initialize ns [] store = Inr store"
| "initialize ns (a # as) store =
     (case resolve ns (source' (store ! a)) of Inl e \<Rightarrow> Inl e
      | Inr s \<Rightarrow>
         (case resolve ns (target' (store ! a)) of Inl e \<Rightarrow> Inl e
          | Inr t \<Rightarrow> initialize ns as (store[a := \<lparr>source' = s, target' = t\<rparr>])))"

text \<open>
  \<^verbatim>\<open>l.source.id\<close>: the property \<^verbatim>\<open>id\<close> of a string is \<^verbatim>\<open>undefined\<close>, which is not
  \<^verbatim>\<open>===\<close> to any \<^verbatim>\<open>d.id\<close>. \<^verbatim>\<open>Math.sqrt\<close> is taken as the square root of the reals.
\<close>

definition endpoint_id :: "endpoint \<Rightarrow> string option" where
  "endpoint_id e = (case e of Slug s \<Rightarrow> None | Node n \<Rightarrow> Some (id' n))"

definition numLinks :: "LinkObj list \<Rightarrow> nat \<Rightarrow> NodeData \<Rightarrow> nat" where
  "numLinks store n d =
     length (filter (\<lambda>a. endpoint_id (source' (store ! a)) = Some (id' d) \<or>
                          endpoint_id (target' (store ! a)) = Some (id' d)) [0..<n])"

definition nodeRadius :: "LinkObj list \<Rightarrow> nat \<Rightarrow> NodeData \<Rightarrow> real" where
  "nodeRadius store n d = 2 + sqrt (real (numLinks store n d))"

definition color :: "string \<Rightarrow> string list \<Rightarrow> NodeData \<Rightarrow> string" where
  "color slug visited d =
     (if id' d = slug then ''var(--secondary)''
      else if id' d \<in> set visited \<or> prefix ''tags/'' (id' d) then ''var(--tertiary)''
      else ''var(--gray)'')"

text \<open>
  What \<^verbatim>\<open>renderGraph\<close> draws: one circle for each node of \<^verbatim>\<open>graphData.nodes\<close>, with
  its radius and fill, and one line for each object of \<^verbatim>\<open>graphData.links\<close>. Positions come
  from the simulation and are left out. \<open>visited\<close> is the set that \<^verbatim>\<open>getVisited()\<close>
  returned at the start of \<^verbatim>\<open>renderGraph\<close>; the model starts after that call and after
  the mount point of the graph has been found.
\<close>

record Circle =
  node :: NodeData
  r :: real
  fill :: string

record ForceDrawn =
  circles :: "Circle list"
  lines :: "LinkObj list"

definition renderGraph ::
  "(string \<Rightarrow> string) \<Rightarrow> string list \<Rightarrow> cfg \<Rightarrow> content_index \<Rightarrow> string \<Rightarrow>
   (error + ForceDrawn) option" where
  "renderGraph simplify visited c data fullSlug =
     (let slug = simplify fullSlug; ls = fst (build_links simplify c data)
      in case neighbourhood simplify c data slug of None \<Rightarrow> None
         | Some nb \<Rightarrow>
            Some (let g = mk_graphData data ls nb; as = graph_link_addrs ls nb
                  in case initialize (nodes g) as (alloc ls) of Inl e \<Rightarrow> Inl e
                     | Inr store \<Rightarrow>
                        Inr \<lparr>circles = map (\<lambda>d. \<lparr>node = d, r = nodeRadius store (length ls) d,
                                                  fill = color slug visited d\<rparr>) (nodes g),
                             lines = map (\<lambda>a. store ! a) as\<rparr>))"

subsection \<open>The radial renderers (lines 325 to 336 and 437 to 447)\<close>

text \<open>
  \<^verbatim>\<open>key.split("/")\<close> never returns an empty array. An entry of \<^verbatim>\<open>dataRadial\<close> has the
  fields \<^verbatim>\<open>id\<close> and \<^verbatim>\<open>parentId\<close> and, spread into it, the fields of the page.
\<close>

fun split_on :: "char \<Rightarrow> string \<Rightarrow> string list" where
  "split_on c [] = [[]]"
| "split_on c (x # xs) =
     (if x = c then [] # split_on c xs
      else (case split_on c xs of [] \<Rightarrow> [[x]] | w # ws \<Rightarrow> (x # w) # ws))"

datatype RadialDatum = RadialDatum string string ContentDetails

definition radial_entry :: "string \<times> ContentDetails \<Rightarrow> RadialDatum list" where
  "radial_entry entry =
     (let crumb = split_on CHR ''/'' (fst entry);
          crumbL = length crumb;
          parent0 = (if 2 \<le> crumbL then Some (crumb ! (crumbL - 2)) else None);
          name0 = crumb ! (crumbL - 1);
          swap = (name0 = ''index'' \<and> 1 < crumbL);
          name = (if swap then crumb ! (crumbL - 2) else name0);
          parent = (if swap then (if 3 \<le> crumbL then Some (crumb ! (crumbL - 3)) else None)
                    else parent0)
      in if parent \<noteq> Some ''tags''
         then [RadialDatum name
                 (case parent of None \<Rightarrow> (if name = ''index'' then [] else ''index'') | Some p \<Rightarrow> p)
                 (snd entry)]
         else [])"

definition dataRadial :: "content_index \<Rightarrow> RadialDatum list" where
  "dataRadial data = concat (map radial_entry data)"

text \<open>
  Both radial renderers hand \<^verbatim>\<open>dataRadial\<close> to \<^verbatim>\<open>d3.stratify\<close> and draw the hierarchy it
  returns; nothing else of their arguments reaches d3 apart from the size and scale of the
  panel.
\<close>

definition renderRadialGraph ::
  "(string \<Rightarrow> string) \<Rightarrow> string list \<Rightarrow> cfg \<Rightarrow> content_index \<Rightarrow> string \<Rightarrow> RadialDatum list" where
  "renderRadialGraph simplify visited c data fullSlug = dataRadial data"

definition renderRadialTidyGraph ::
  "(string \<Rightarrow> string) \<Rightarrow> string list \<Rightarrow> cfg \<Rightarrow> content_index \<Rightarrow> string \<Rightarrow> RadialDatum list" where
  "renderRadialTidyGraph simplify visited c data fullSlug = dataRadial data"

subsection \<open>The horizontal tree renderer (lines 605 to 621)\<close>

text \<open>
  \<^verbatim>\<open>if(id)\<close> skips the node whose identifier is the empty string. The result is
  \<^verbatim>\<open>dataTree2\<close>, the value given to \<^verbatim>\<open>d3.hierarchy\<close>.
\<close>

record DataTreeItem =
  name :: string
  title' :: string

record DataTree2 =
  name' :: string
  children :: "DataTreeItem list"

definition dataTree :: "NodeData list \<Rightarrow> DataTreeItem list" where
  "dataTree flatData = map (\<lambda>d. \<lparr>name = id' d, title' = text' d\<rparr>) (filter (\<lambda>d. id' d \<noteq> []) flatData)"

definition renderTreeGraph ::
  "(string \<Rightarrow> string) \<Rightarrow> string list \<Rightarrow> cfg \<Rightarrow> content_index \<Rightarrow> string \<Rightarrow> DataTree2 option" where
  "renderTreeGraph simplify visited c data fullSlug =
     map_option (\<lambda>g. \<lparr>name' = ''Root'', children = dataTree (nodes g)\<rparr>)
       (graphData simplify c data (simplify fullSlug))"

section \<open>The visited set (lines 17 to 26)\<close>

text \<open>
  \<^verbatim>\<open>JSON.parse\<close> and \<^verbatim>\<open>JSON.stringify\<close> belong to the JavaScript platform. They are
  modelled over \<^typ>\<open>string\<close>, whose characters have codes up to 255. A number keeps the
  text it was written with. \<open>Unrepresented\<close> is the outcome where the model does not
  follow the platform: a \<^verbatim>\<open>\u\<close> escape above \<^verbatim>\<open>00ff\<close>, a \<^verbatim>\<open>Set\<close> with a member that is
  not a string, and a text whose nesting uses up the recursion count of the parser (the
  count given to it is larger than the length of the text). \<open>SyntaxError\<close> is returned
  only where the grammar of JSON is violated.
\<close>

datatype json =
  JNull | JBool bool | JNumber string | JString string | JArray "json list"
  | JObject "(string \<times> json) list"

definition is_ws :: "char \<Rightarrow> bool" where
  "is_ws c \<longleftrightarrow> c = CHR '' '' \<or> c = CHR 0x09 \<or> c = CHR 0x0A \<or> c = CHR 0x0D"

definition skip_ws :: "string \<Rightarrow> string" where
  "skip_ws s = dropWhile is_ws s"

definition is_digit :: "char \<Rightarrow> bool" where
  "is_digit c \<longleftrightarrow> (48 :: nat) \<le> of_char c \<and> (of_char c :: nat) \<le> 57"

definition hex_val :: "char \<Rightarrow> nat option" where
  "hex_val c =
     (let n = (of_char c :: nat)
      in if 48 \<le> n \<and> n \<le> 57 then Some (n - 48)
         else if 97 \<le> n \<and> n \<le> 102 then Some (n - 87)
         else if 65 \<le> n \<and> n \<le> 70 then Some (n - 55)
         else None)"

definition hex_digit :: "nat \<Rightarrow> char" where
  "hex_digit n = (if n < 10 then char_of (48 + n) else char_of (87 + n))"

definition unescape :: "char \<Rightarrow> char option" where
  "unescape e =
     (if e = CHR 0x22 then Some (CHR 0x22)
      else if e = CHR 0x5C then Some (CHR 0x5C)
      else if e = CHR ''/'' then Some (CHR ''/'')
      else if e = CHR ''b'' then Some (CHR 0x08)
      else if e = CHR ''f'' then Some (CHR 0x0C)
      else if e = CHR ''n'' then Some (CHR 0x0A)
      else if e = CHR ''r'' then Some (CHR 0x0D)
      else if e = CHR ''t'' then Some (CHR 0x09)
      else None)"

definition hex4 :: "string \<Rightarrow> nat option" where
  "hex4 s =
     (case map hex_val (take 4 s) of
        [Some a, Some b, Some c, Some d] \<Rightarrow> Some (((a * 16 + b) * 16 + c) * 16 + d)
      | _ \<Rightarrow> None)"

text \<open>
  The characters of a string literal after its opening quote, up to the closing quote,
  and the rest of the text.
\<close>

fun lex_string :: "string \<Rightarrow> error + string \<times> string" where
  "lex_string [] = Inl SyntaxError"
| "lex_string (c # cs) =
     (if c = CHR 0x22 then Inr ([], cs)
      else if c = CHR 0x5C then
        (case cs of [] \<Rightarrow> Inl SyntaxError
         | e # cs' \<Rightarrow>
            if e = CHR ''u'' then
              (case hex4 cs' of None \<Rightarrow> Inl SyntaxError
               | Some n \<Rightarrow>
                  if 256 \<le> n then Inl Unrepresented
                  else (case lex_string (drop 4 cs') of Inl err \<Rightarrow> Inl err
                        | Inr (s, rest) \<Rightarrow> Inr (char_of n # s, rest)))
            else (case unescape e of None \<Rightarrow> Inl SyntaxError
                  | Some ch \<Rightarrow>
                     (case lex_string cs' of Inl err \<Rightarrow> Inl err
                      | Inr (s, rest) \<Rightarrow> Inr (ch # s, rest))))
      else if (of_char c :: nat) < 32 then Inl SyntaxError
      else (case lex_string cs of Inl err \<Rightarrow> Inl err | Inr (s, rest) \<Rightarrow> Inr (c # s, rest)))"

text \<open>
  A number literal: an optional minus sign, \<^verbatim>\<open>0\<close> or digits that do not start with
  \<^verbatim>\<open>0\<close>, an optional fraction and an optional exponent, each with at least one digit.
\<close>

definition lex_digits :: "string \<Rightarrow> (string \<times> string) option" where
  "lex_digits s = (if takeWhile is_digit s = [] then None
                   else Some (takeWhile is_digit s, dropWhile is_digit s))"

definition lex_int :: "string \<Rightarrow> (string \<times> string) option" where
  "lex_int s = (case s of [] \<Rightarrow> None
                | c # cs \<Rightarrow> if c = CHR ''0'' then Some (''0'', cs) else lex_digits s)"

definition lex_frac :: "string \<Rightarrow> (string \<times> string) option" where
  "lex_frac s = (case s of [] \<Rightarrow> Some ([], [])
                 | c # cs \<Rightarrow>
                    if c = CHR ''.'' then map_option (\<lambda>(ds, rest). (c # ds, rest)) (lex_digits cs)
                    else Some ([], s))"

definition lex_exp :: "string \<Rightarrow> (string \<times> string) option" where
  "lex_exp s = (case s of [] \<Rightarrow> Some ([], [])
                | c # cs \<Rightarrow>
                   if c = CHR ''e'' \<or> c = CHR ''E'' then
                     (case cs of [] \<Rightarrow> None
                      | g # gs \<Rightarrow>
                         if g = CHR ''+'' \<or> g = CHR ''-''
                         then map_option (\<lambda>(ds, rest). (c # g # ds, rest)) (lex_digits gs)
                         else map_option (\<lambda>(ds, rest). (c # ds, rest)) (lex_digits cs))
                   else Some ([], s))"

definition lex_number :: "string \<Rightarrow> (string \<times> string) option" where
  "lex_number s =
     (let sign = (if prefix ''-'' s then ''-'' else []);
          s1 = drop (length sign) s
      in case lex_int s1 of None \<Rightarrow> None
         | Some (i, s2) \<Rightarrow>
            (case lex_frac s2 of None \<Rightarrow> None
             | Some (f, s3) \<Rightarrow>
                (case lex_exp s3 of None \<Rightarrow> None
                 | Some (e, s4) \<Rightarrow> Some (sign @ i @ f @ e, s4))))"

text \<open>
  Values, the elements of an array after its opening bracket, and the members of an
  object after its opening brace. The first argument counts the calls that remain.
\<close>

fun parse_value :: "nat \<Rightarrow> string \<Rightarrow> error + json \<times> string"
  and parse_elements :: "nat \<Rightarrow> string \<Rightarrow> json list \<Rightarrow> error + json \<times> string"
  and parse_members :: "nat \<Rightarrow> string \<Rightarrow> (string \<times> json) list \<Rightarrow> error + json \<times> string"
  where
  "parse_value 0 s = Inl Unrepresented"
| "parse_value (Suc n) s =
     (case skip_ws s of [] \<Rightarrow> Inl SyntaxError
      | c # cs \<Rightarrow>
         if c = CHR ''['' then
           (case skip_ws cs of [] \<Rightarrow> Inl SyntaxError
            | d # ds \<Rightarrow> if d = CHR '']'' then Inr (JArray [], ds) else parse_elements n cs [])
         else if c = CHR ''{'' then
           (case skip_ws cs of [] \<Rightarrow> Inl SyntaxError
            | d # ds \<Rightarrow> if d = CHR ''}'' then Inr (JObject [], ds) else parse_members n cs [])
         else if c = CHR 0x22 then
           (case lex_string cs of Inl err \<Rightarrow> Inl err | Inr (str, rest) \<Rightarrow> Inr (JString str, rest))
         else if prefix ''null'' (c # cs) then Inr (JNull, drop 4 (c # cs))
         else if prefix ''true'' (c # cs) then Inr (JBool True, drop 4 (c # cs))
         else if prefix ''false'' (c # cs) then Inr (JBool False, drop 5 (c # cs))
         else (case lex_number (c # cs) of None \<Rightarrow> Inl SyntaxError
               | Some (num, rest) \<Rightarrow> Inr (JNumber num, rest)))"
| "parse_elements 0 s acc = Inl Unrepresented"
| "parse_elements (Suc n) s acc =
     (case parse_value n s of Inl err \<Rightarrow> Inl err
      | Inr (v, rest) \<Rightarrow>
         (case skip_ws rest of [] \<Rightarrow> Inl SyntaxError
          | c # cs \<Rightarrow>
             if c = CHR '','' then parse_elements n cs (acc @ [v])
             else if c = CHR '']'' then Inr (JArray (acc @ [v]), cs)
             else Inl SyntaxError))"
| "parse_members 0 s acc = Inl Unrepresented"
| "parse_members (Suc n) s acc =
     (case skip_ws s of [] \<Rightarrow> Inl SyntaxError
      | q # qs \<Rightarrow>
         if q \<noteq> CHR 0x22 then Inl SyntaxError
         else (case lex_string qs of Inl err \<Rightarrow> Inl err
               | Inr (k, rest) \<Rightarrow>
                  (case skip_ws rest of [] \<Rightarrow> Inl SyntaxError
                   | p # ps \<Rightarrow>
                      if p \<noteq> CHR '':'' then Inl SyntaxError
                      else (case parse_value n ps of Inl err \<Rightarrow> Inl err
                            | Inr (v, rest') \<Rightarrow>
                               (case skip_ws rest' of [] \<Rightarrow> Inl SyntaxError
                                | c # cs \<Rightarrow>
                                   if c = CHR '','' then parse_members n cs (acc @ [(k, v)])
                                   else if c = CHR ''}'' then Inr (JObject (acc @ [(k, v)]), cs)
                                   else Inl SyntaxError)))))"

definition JSON_parse :: "string \<Rightarrow> error + json" where
  "JSON_parse s =
     (case parse_value (Suc (length s)) s of Inl err \<Rightarrow> Inl err
      | Inr (v, rest) \<Rightarrow> if skip_ws rest = [] then Inr v else Inl SyntaxError)"

text \<open>
  \<^verbatim>\<open>JSON.stringify\<close> of an array of strings: the quoted strings, separated by commas,
  between brackets. A quoted string escapes the quote, the backslash and the characters
  below the space.
\<close>

definition escape :: "char \<Rightarrow> string" where
  "escape c =
     (if c = CHR 0x22 then [CHR 0x5C, CHR 0x22]
      else if c = CHR 0x5C then [CHR 0x5C, CHR 0x5C]
      else if c = CHR 0x08 then [CHR 0x5C, CHR ''b'']
      else if c = CHR 0x0C then [CHR 0x5C, CHR ''f'']
      else if c = CHR 0x0A then [CHR 0x5C, CHR ''n'']
      else if c = CHR 0x0D then [CHR 0x5C, CHR ''r'']
      else if c = CHR 0x09 then [CHR 0x5C, CHR ''t'']
      else if (of_char c :: nat) < 32
        then [CHR 0x5C, CHR ''u'', CHR ''0'', CHR ''0'',
              hex_digit (of_char c div 16), hex_digit (of_char c mod 16)]
      else [c])"

definition quote :: "string \<Rightarrow> string" where
  "quote s = CHR 0x22 # concat (map escape s) @ [CHR 0x22]"

fun join_comma :: "string list \<Rightarrow> string" where
  "join_comma [] = []"
| "join_comma [x] = x"
| "join_comma (x # y # ys) = x @ CHR '','' # join_comma (y # ys)"

definition JSON_stringify :: "string list \<Rightarrow> string" where
  "JSON_stringify xs = CHR ''['' # join_comma (map quote xs) @ '']''"

text \<open>
  \<^verbatim>\<open>new Set(v)\<close> for a parsed value: \<^verbatim>\<open>null\<close> gives the empty set, an array its elements,
  a string its characters, and a number, a truth value or an object is not iterable.
\<close>

fun the_strings :: "json list \<Rightarrow> string list option" where
  "the_strings [] = Some []"
| "the_strings (JString s # vs) = map_option ((#) s) (the_strings vs)"
| "the_strings (v # vs) = None"

definition new_Set :: "json \<Rightarrow> error + string list" where
  "new_Set v =
     (case v of JNull \<Rightarrow> Inr []
      | JArray vs \<Rightarrow> (case the_strings vs of None \<Rightarrow> Inl Unrepresented
                      | Some xs \<Rightarrow> Inr (foldl (\<lambda>acc x. set_add x acc) [] xs))
      | JString s \<Rightarrow> Inr (foldl (\<lambda>acc x. set_add x acc) [] (map (\<lambda>c. [c]) s))
      | _ \<Rightarrow> Inl TypeError)"

text \<open>
  The state is the item of \<^verbatim>\<open>localStorage\<close> under the key \<^verbatim>\<open>graph-visited\<close>: \<open>None\<close>
  when \<^verbatim>\<open>getItem\<close> returns \<^verbatim>\<open>null\<close>. \<open>addToVisited\<close> returns the item it has stored;
  the storage is taken to accept it.
\<close>

definition getVisited :: "string option \<Rightarrow> error + string list" where
  "getVisited item =
     (case JSON_parse (case item of None \<Rightarrow> ''[]'' | Some s \<Rightarrow> s) of Inl err \<Rightarrow> Inl err
      | Inr v \<Rightarrow> new_Set v)"

definition addToVisited :: "string \<Rightarrow> string option \<Rightarrow> error + string option" where
  "addToVisited slug item =
     (case getVisited item of Inl err \<Rightarrow> Inl err
      | Inr visited \<Rightarrow> Inr (Some (JSON_stringify (set_add slug visited))))"

section \<open>Notions of the specification\<close>

text \<open>
  The full edge list as a relation, its undirected closure, and the identifiers that at
  most \<open>n\<close> edge traversals of the closure reach from the focus: these follow the words of
  the specification and are what the traversal is compared with.
\<close>

definition edges :: "LinkData list \<Rightarrow> (string \<times> string) set" where
  "edges ls = (\<lambda>l. (source l, target l)) ` set ls"

definition undirected :: "LinkData list \<Rightarrow> (string \<times> string) set" where
  "undirected ls = edges ls \<union> (edges ls)\<inverse>"

definition within_hops :: "LinkData list \<Rightarrow> string \<Rightarrow> nat \<Rightarrow> string set" where
  "within_hops ls focus n = {y. \<exists>k\<le>n. (focus, y) \<in> undirected ls ^^ k}"

text \<open>No edge of the list starts or ends at the marker string of the work list.\<close>

definition marker_free :: "LinkData list \<Rightarrow> bool" where
  "marker_free ls = list_all (\<lambda>l. source l \<noteq> SENTINEL \<and> target l \<noteq> SENTINEL) ls"


definition add_all :: "'a list \<Rightarrow> 'a list \<Rightarrow> 'a list" where
  "add_all xs nb = foldl (\<lambda>nb x. set_add x nb) nb xs"

section \<open>The drawing as a function of the graph data\<close>

text \<open>
  What \<open>initialize\<close> leaves in a link object, and what \<open>renderGraph\<close> draws, written as
  functions of \<^verbatim>\<open>graphData\<close>, the focus and the visited set alone.
\<close>

definition lookup_node :: "NodeData list \<Rightarrow> string \<Rightarrow> NodeData" where
  "lookup_node ns s = last (filter (\<lambda>n. id' n = s) ns)"

definition resolved :: "NodeData list \<Rightarrow> LinkData \<Rightarrow> LinkObj" where
  "resolved ns l =
     \<lparr>source' = Node (lookup_node ns (source l)), target' = Node (lookup_node ns (target l))\<rparr>"

definition incident :: "LinkData list \<Rightarrow> string \<Rightarrow> nat" where
  "incident ls u = length (filter (\<lambda>l. source l = u \<or> target l = u) ls)"

definition draw :: "string \<Rightarrow> string list \<Rightarrow> GraphData \<Rightarrow> ForceDrawn" where
  "draw slug visited g =
     \<lparr>circles = map (\<lambda>d. \<lparr>node = d, r = 2 + sqrt (real (incident (links g) (id' d))),
                           fill = color slug visited d\<rparr>) (nodes g),
      lines = map (resolved (nodes g)) (links g)\<rparr>"

text \<open>
  \<open>store\<close> agrees with \<open>ls\<close> outside the addresses \<open>done\<close>, where it holds resolved
  objects.
\<close>

definition store_inv :: "NodeData list \<Rightarrow> LinkData list \<Rightarrow> nat set \<Rightarrow> LinkObj list \<Rightarrow> bool" where
  "store_inv ns ls done store \<longleftrightarrow>
     length store = length ls \<and>
     (\<forall>a < length ls. store ! a = (if a \<in> done then resolved ns (ls ! a)
                                    else \<lparr>source' = Slug (source (ls ! a)), target' = Slug (target (ls ! a))\<rparr>))"

section \<open>Example inputs\<close>

text \<open>
  The chain of pages A, B, C of the specification; an index with a page whose identifier
  is the marker string; identifiers are already in their simple form.
\<close>

definition chain :: content_index where
  "chain = [(''A'', \<lparr>title = ''A'', links = Some [''B''], tags = []\<rparr>),
            (''B'', \<lparr>title = ''B'', links = Some [''C''], tags = []\<rparr>),
            (''C'', \<lparr>title = ''C'', links = None, tags = []\<rparr>)]"

definition chain_links :: "LinkData list" where
  "chain_links = [\<lparr>source = ''A'', target = ''B''\<rparr>, \<lparr>source = ''B'', target = ''C''\<rparr>]"

definition marked :: content_index where
  "marked = [(''a'', \<lparr>title = ''a'', links = Some [''__SENTINEL''], tags = []\<rparr>),
             (''__SENTINEL'', \<lparr>title = ''s'', links = None, tags = []\<rparr>),
             (''b'', \<lparr>title = ''b'', links = Some [''a''], tags = []\<rparr>)]"

definition marked_links :: "LinkData list" where
  "marked_links = [\<lparr>source = ''a'', target = ''__SENTINEL''\<rparr>, \<lparr>source = ''b'', target = ''a''\<rparr>]"

definition hops :: "int \<Rightarrow> cfg" where
  "hops n = \<lparr>depth = n, showTags = False, removeTags = []\<rparr>"





text \<open>
  Two indexes with the home page, which the radial renderers need as the root of their
  hierarchy, and the page a; the second one has the page b in addition.
\<close>

definition home :: content_index where
  "home = [(''index'', \<lparr>title = ''Home'', links = None, tags = []\<rparr>),
           (''a'', \<lparr>title = ''A'', links = None, tags = []\<rparr>)]"

definition home_more :: content_index where
  "home_more = [(''index'', \<lparr>title = ''Home'', links = None, tags = []\<rparr>),
                (''a'', \<lparr>title = ''A'', links = None, tags = []\<rparr>),
                (''b'', \<lparr>title = ''B'', links = None, tags = []\<rparr>)]"

section \<open>The traversal loop\<close>

lemma set_set_add [simp]: "set (set_add x xs) = insert x (set xs)"
  by (auto simp: set_add_def)

lemma distinct_set_add [simp]: "distinct (set_add x xs) = distinct xs"
  by (auto simp: set_add_def)

lemma set_add_all [simp]: "set (add_all xs nb) = set nb \<union> set xs"
  by (induction xs arbitrary: nb) (auto simp: add_all_def)

lemma distinct_add_all [simp]: "distinct (add_all xs nb) = distinct nb"
  by (induction xs arbitrary: nb) (auto simp: add_all_def)

lemma bfs_loop_item:
  "0 \<le> d \<Longrightarrow> x \<noteq> SENTINEL \<Longrightarrow>
   bfs_loop ls d (x # wl) nb = bfs_loop ls d (wl @ pushed ls x) (set_add x nb)"
  by (subst bfs_loop.simps) simp

lemma bfs_loop_marker:
  "0 \<le> d \<Longrightarrow> bfs_loop ls d (SENTINEL # wl) nb = bfs_loop ls (d - 1) (wl @ [SENTINEL]) nb"
  by (subst bfs_loop.simps) simp

lemma bfs_loop_stop: "d < 0 \<Longrightarrow> bfs_loop ls d wl nb = Some (d, wl, nb)"
  by (subst bfs_loop.simps) simp

text \<open>
  One level: the identifiers in front of the first marker are taken off one by one, what
  they push goes behind the rest of the list, and the marker moves to the end.
\<close>

lemma bfs_loop_level:
  "0 \<le> d \<Longrightarrow> SENTINEL \<notin> set xs \<Longrightarrow>
   bfs_loop ls d (xs @ SENTINEL # ys) nb =
   bfs_loop ls (d - 1) (ys @ concat (map (pushed ls) xs) @ [SENTINEL]) (add_all xs nb)"
proof (induction xs arbitrary: ys nb)
  case Nil
  then show ?case by (simp add: bfs_loop_marker add_all_def)
next
  case (Cons x xs)
  from Cons.prems have x: "x \<noteq> SENTINEL" and xs: "SENTINEL \<notin> set xs" by auto
  have "bfs_loop ls d ((x # xs) @ SENTINEL # ys) nb =
        bfs_loop ls d (xs @ SENTINEL # (ys @ pushed ls x)) (set_add x nb)"
    using bfs_loop_item [OF Cons.prems(1) x] by simp
  also have "\<dots> = bfs_loop ls (d - 1) ((ys @ pushed ls x) @ concat (map (pushed ls) xs) @ [SENTINEL])
                     (add_all xs (set_add x nb))"
    by (rule Cons.IH [OF Cons.prems(1) xs])
  finally show ?case by (simp add: add_all_def)
qed

text \<open>
  A work list that holds the marker is worked off: each level lowers the counter, and the
  set only grows.
\<close>

lemma bfs_loop_returns:
  "SENTINEL \<in> set wl \<Longrightarrow> d = int n - 1 \<Longrightarrow>
   \<exists>wl' nb'. bfs_loop ls d wl nb = Some (- 1, wl', nb') \<and> wl' \<noteq> [] \<and> set nb \<subseteq> set nb' \<and>
      (distinct nb \<longrightarrow> distinct nb')"
proof (induction n arbitrary: d wl nb)
  case 0
  then show ?case by (auto simp: bfs_loop_stop)
next
  case (Suc n)
  from Suc.prems(1) obtain xs ys where wl: "wl = xs @ SENTINEL # ys" and xs: "SENTINEL \<notin> set xs"
    by (auto dest: split_list_first)
  from Suc.prems(2) have d: "0 \<le> d" by simp
  have step: "bfs_loop ls d wl nb =
     bfs_loop ls (d - 1) (ys @ concat (map (pushed ls) xs) @ [SENTINEL]) (add_all xs nb)"
    unfolding wl by (rule bfs_loop_level [OF d xs])
  have "\<exists>wl' nb'. bfs_loop ls (d - 1) (ys @ concat (map (pushed ls) xs) @ [SENTINEL]) (add_all xs nb)
           = Some (- 1, wl', nb') \<and> wl' \<noteq> [] \<and> set (add_all xs nb) \<subseteq> set nb' \<and>
           (distinct (add_all xs nb) \<longrightarrow> distinct nb')"
    by (rule Suc.IH) (use Suc.prems(2) in auto)
  with step show ?case by auto
qed

lemma bfs_loop_start:
  "\<exists>d' wl' nb. bfs_loop ls d [slug, SENTINEL] [] = Some (d', wl', nb) \<and> d' < 0 \<and> distinct nb \<and>
     (0 \<le> d \<and> slug \<noteq> SENTINEL \<longrightarrow> slug \<in> set nb)"
proof (cases "0 \<le> d")
  case False
  then show ?thesis by (simp add: bfs_loop_stop)
next
  case d: True
  show ?thesis
  proof (cases "slug = SENTINEL")
    case True
    then show ?thesis
      using bfs_loop_returns [of "[slug, SENTINEL]" d "nat (d + 1)" ls "[]"] d by auto
  next
    case False
    then have "bfs_loop ls d [slug, SENTINEL] [] =
               bfs_loop ls d ([SENTINEL] @ pushed ls slug) (set_add slug [])"
      using bfs_loop_item [OF d, of slug ls "[SENTINEL]" "[]"] by simp
    moreover have "\<exists>wl' nb'. bfs_loop ls d ([SENTINEL] @ pushed ls slug) (set_add slug []) =
        Some (- 1, wl', nb') \<and> wl' \<noteq> [] \<and> set (set_add slug []) \<subseteq> set nb' \<and>
        (distinct (set_add slug []) \<longrightarrow> distinct nb')"
      by (rule bfs_loop_returns [where n = "nat (d + 1)"]) (use d in auto)
    ultimately show ?thesis by auto
  qed
qed

section \<open>The levels of the traversal and reachability\<close>

lemma set_pushed: "set (pushed ls x) = undirected ls `` {x}"
  by (auto simp: pushed_def undirected_def edges_def image_iff)

lemma set_concat_pushed: "set (concat (map (pushed ls) xs)) = undirected ls `` set xs"
  by (auto simp: set_pushed)

lemma marker_free_pushed: "marker_free ls \<Longrightarrow> SENTINEL \<notin> set (concat (map (pushed ls) xs))"
  by (auto simp: marker_free_def pushed_def list_all_iff)

lemma relpow_Image_step: "(R ^^ k) `` (R `` A) = (R ^^ Suc k) `` A"
proof -
  have "(R ^^ Suc k) `` A = (R O R ^^ k) `` A" by (simp add: relpow_commute)
  then show ?thesis by (simp add: relcomp_Image)
qed

lemma UN_hops_Suc:
  "(\<Union>k\<le>Suc n. (R ^^ k) `` A) = A \<union> (\<Union>k\<le>n. (R ^^ k) `` (R `` A))"
proof -
  have "(\<Union>k\<le>Suc n. (R ^^ k) `` A) = (R ^^ 0) `` A \<union> (\<Union>k\<le>n. (R ^^ Suc k) `` A)"
    unfolding atMost_Suc_eq_insert_0 by (simp del: relpow.simps)
  then show ?thesis by (simp only: relpow_Image_step) simp
qed

lemma bfs_loop_levels:
  "marker_free ls \<Longrightarrow> SENTINEL \<notin> set xs \<Longrightarrow>
   \<exists>wl' nb'. bfs_loop ls (int n) (xs @ [SENTINEL]) nb = Some (- 1, wl', nb') \<and>
      set nb' = set nb \<union> (\<Union>k\<le>n. (undirected ls ^^ k) `` set xs)"
proof (induction n arbitrary: xs nb)
  case 0
  have "bfs_loop ls (int 0) (xs @ [SENTINEL]) nb =
        bfs_loop ls (- 1) (concat (map (pushed ls) xs) @ [SENTINEL]) (add_all xs nb)"
    using bfs_loop_level [of 0 xs ls "[]" nb] 0 by simp
  then show ?case by (simp add: bfs_loop_stop)
next
  case (Suc n)
  let ?ys = "concat (map (pushed ls) xs)"
  have "bfs_loop ls (int (Suc n)) (xs @ [SENTINEL]) nb =
        bfs_loop ls (int n) (?ys @ [SENTINEL]) (add_all xs nb)"
    using bfs_loop_level [of "int (Suc n)" xs ls "[]" nb] Suc.prems by simp
  moreover have "\<exists>wl' nb'. bfs_loop ls (int n) (?ys @ [SENTINEL]) (add_all xs nb) = Some (- 1, wl', nb') \<and>
      set nb' = set (add_all xs nb) \<union> (\<Union>k\<le>n. (undirected ls ^^ k) `` set ?ys)"
    by (rule Suc.IH [OF Suc.prems(1) marker_free_pushed [OF Suc.prems(1)]])
  ultimately show ?case
    by (simp only: set_concat_pushed UN_hops_Suc set_add_all) (auto simp: Un_assoc)
qed

lemma within_hops_UN: "within_hops ls focus n = (\<Union>k\<le>n. (undirected ls ^^ k) `` {focus})"
  by (auto simp: within_hops_def)

lemma within_hops_0: "within_hops ls focus 0 = {focus}"
  by (auto simp: within_hops_def)

lemma within_hops_1: "within_hops ls focus (Suc 0) = insert focus (undirected ls `` {focus})"
  by (auto simp: within_hops_def le_Suc_eq)

lemma bfs_loop_within_hops:
  assumes "marker_free ls" and "slug \<noteq> SENTINEL" and "0 \<le> d"
  shows "\<exists>wl' nb. bfs_loop ls d [slug, SENTINEL] [] = Some (- 1, wl', nb) \<and>
           set nb = within_hops ls slug (nat d)"
  using bfs_loop_levels [OF assms(1), of "[slug]" "nat d" "[]"] assms(2,3)
  by (simp add: within_hops_UN)

section \<open>Edge construction\<close>


lemma set_snd_page_step:
  "set (snd (page_step simplify c valid acc entry)) =
   set (snd acc) \<union> (if showTags c then set (localTags simplify c (snd entry)) else {})"
  by (auto simp: page_step_def Let_def)


lemma set_snd_foldl_page_step:
  "set (snd (foldl (page_step simplify c valid) acc data)) =
   set (snd acc) \<union> (if showTags c then (\<Union>e\<in>set data. set (localTags simplify c (snd e))) else {})"
  by (induction data arbitrary: acc) (auto simp: set_snd_page_step)


lemma set_snd_build_links:
  "set (snd (build_links simplify c data)) =
   (if showTags c then (\<Union>e\<in>set data. set (localTags simplify c (snd e))) else {})"
  by (simp add: build_links_def set_snd_foldl_page_step)

lemma set_foldl_set_add: "set (foldl (\<lambda>nb x. set_add x nb) nb xs) = set nb \<union> set xs"
  by (induction xs arbitrary: nb) (auto simp: set_add_def)

lemma set_foldl_set_add_simplify:
  "set (foldl (\<lambda>nb k. set_add (simplify k) nb) nb ks) = set nb \<union> simplify ` set ks"
  by (induction ks arbitrary: nb) (auto simp: set_add_def)

lemma distinct_foldl_set_add: "distinct (foldl (\<lambda>nb x. set_add x nb) nb xs) = distinct nb"
  by (induction xs arbitrary: nb) (auto simp: set_add_def)

lemma distinct_foldl_set_add_simplify:
  "distinct (foldl (\<lambda>nb k. set_add (simplify k) nb) nb ks) = distinct nb"
  by (induction ks arbitrary: nb) (auto simp: set_add_def)

lemma validLinks_image: "validLinks simplify data = simplify ` fst ` set data"
  by (auto simp: validLinks_def image_iff split_beta)

lemma neighbourhood_unbounded:
  "depth c < 0 \<Longrightarrow> \<exists>nb. neighbourhood simplify c data slug = Some nb \<and>
     set nb = validLinks simplify data \<union> (if showTags c then set (snd (build_links simplify c data)) else {})"
  by (simp add: neighbourhood_def Let_def set_foldl_set_add set_foldl_set_add_simplify validLinks_image)

lemma neighbourhood_returns: "\<exists>nb. neighbourhood simplify c data slug = Some nb \<and> distinct nb"
proof (cases "0 \<le> depth c")
  case True
  obtain d' wl' nb where "bfs_loop (fst (build_links simplify c data)) (depth c) [slug, SENTINEL] [] = Some (d', wl', nb)"
    and "distinct nb"
    using bfs_loop_start [of "fst (build_links simplify c data)" "depth c" slug] by blast
  with True show ?thesis by (simp add: neighbourhood_def Let_def)
next
  case False
  then show ?thesis
    by (simp add: neighbourhood_def Let_def distinct_foldl_set_add distinct_foldl_set_add_simplify)
qed

lemma chain_build: "build_links (\<lambda>s. s) (hops n) chain = (chain_links, [])"
  by (simp add: build_links_def chain_def chain_links_def hops_def page_step_def validLinks_def)

lemma marked_build: "build_links (\<lambda>s. s) (hops n) marked = (marked_links, [])"
  by (simp add: build_links_def marked_def marked_links_def hops_def page_step_def validLinks_def)

section \<open>Claims on the neighbourhood\<close>



text \<open>
  C1, as amended. When the marker string is neither the focus nor an end of an edge of the
  full edge list, and the hop limit \<open>N\<close> is not negative, the neighbourhood set is the set
  of identifiers that at most \<open>N\<close> edge traversals in the undirected closure of the full edge
  list reach from the focus: for \<open>N = 0\<close> the focus alone, for \<open>N = 1\<close> the focus and its
  direct neighbours in either direction.
\<close>

theorem neighbourhood_within_hops:
  assumes "0 \<le> depth c" and "slug \<noteq> SENTINEL"
    and "marker_free (fst (build_links simplify c data))"
  shows "\<exists>nb. neighbourhood simplify c data slug = Some nb \<and>
     set nb = within_hops (fst (build_links simplify c data)) slug (nat (depth c)) \<and>
     (depth c = 0 \<longrightarrow> set nb = {slug}) \<and>
     (depth c = 1 \<longrightarrow>
        set nb = insert slug (undirected (fst (build_links simplify c data)) `` {slug}))"
proof -
  let ?ls = "fst (build_links simplify c data)"
  obtain wl' nb where run: "bfs_loop ?ls (depth c) [slug, SENTINEL] [] = Some (- 1, wl', nb)"
    and nb: "set nb = within_hops ?ls slug (nat (depth c))"
    using bfs_loop_within_hops [OF assms(3) assms(2) assms(1)] by blast
  from run assms(1) have "neighbourhood simplify c data slug = Some nb"
    by (simp add: neighbourhood_def Let_def)
  moreover have "depth c = 0 \<longrightarrow> set nb = {slug}"
    using nb by (simp add: within_hops_0)
  moreover have "depth c = 1 \<longrightarrow> set nb = insert slug (undirected ?ls `` {slug})"
    using nb by (simp add: within_hops_1)
  ultimately show ?thesis using nb by blast
qed

text \<open>
  The chain A, B, C of the specification: hop limit 1 from B gives A, B and C, which is
  therefore the set within one hop of B.
\<close>

lemma chain_neighbourhood: "neighbourhood (\<lambda>s. s) (hops 1) chain ''B'' = Some [''B'', ''C'', ''A'']"
  by (simp add: neighbourhood_def chain_build)
     (simp add: hops_def chain_links_def bfs_loop.simps SENTINEL_def pushed_def set_add_def)

theorem neighbourhood_within_hops_witness:
  "0 \<le> depth (hops 1) \<and> ''B'' \<noteq> SENTINEL \<and> marker_free (fst (build_links (\<lambda>s. s) (hops 1) chain)) \<and>
   within_hops chain_links ''B'' 1 = {''A'', ''B'', ''C''}"
proof -
  have h: "0 \<le> depth (hops 1)" "''B'' \<noteq> SENTINEL"
    "marker_free (fst (build_links (\<lambda>s. s) (hops 1) chain))"
    by (simp_all add: chain_build) (simp_all add: hops_def SENTINEL_def chain_links_def marker_free_def)
  from neighbourhood_within_hops [OF h] show ?thesis
    using h by (simp add: chain_neighbourhood chain_build) (auto simp: hops_def)
qed

text \<open>
  C1 as stated fails when a page is called \<^verbatim>\<open>__SENTINEL\<close>: page a links to it and page b
  links to a, so b is one hop from a, yet with hop limit 1 the neighbourhood of a is a
  alone, because the identifier pushed for that page is taken for the level marker.
\<close>

theorem neighbourhood_marker_counterexample:
  "neighbourhood (\<lambda>s. s) (hops 1) marked ''a'' = Some [''a''] \<and>
   ''b'' \<in> within_hops (fst (build_links (\<lambda>s. s) (hops 1) marked)) ''a'' (nat 1)"
proof
  show "neighbourhood (\<lambda>s. s) (hops 1) marked ''a'' = Some [''a'']"
    by (simp add: neighbourhood_def marked_build)
       (simp add: hops_def marked_links_def bfs_loop.simps SENTINEL_def pushed_def set_add_def)
  have "(''a'', ''b'') \<in> undirected marked_links"
    by (simp add: undirected_def edges_def marked_links_def image_iff)
  then have "(''a'', ''b'') \<in> undirected marked_links ^^ 1" by simp
  then show "''b'' \<in> within_hops (fst (build_links (\<lambda>s. s) (hops 1) marked)) ''a'' (nat 1)"
    unfolding within_hops_def marked_build by (intro CollectI exI [of _ 1]) simp
qed

text \<open>
  C2, as amended. With a hop limit that is not negative the neighbourhood set contains the
  focus, provided the focus is not the marker string. With a negative hop limit it is the
  set of the simplified keys of the content index, together with every tag node (the
  identifier \<^verbatim>\<open>tags/<tag>\<close>, simplified, of every tag of a page that is not excluded) when
  tag display is on, whatever the focus.
\<close>

theorem neighbourhood_focus_or_all:
  "(0 \<le> depth c \<and> slug \<noteq> SENTINEL \<longrightarrow>
      (\<exists>nb. neighbourhood simplify c data slug = Some nb \<and> slug \<in> set nb)) \<and>
   (depth c < 0 \<longrightarrow>
      (\<exists>nb. neighbourhood simplify c data slug = Some nb \<and>
         set nb = simplify ` fst ` set data \<union>
           (if showTags c
            then {simplify (''tags/'' @ tag) | tag d. d \<in> snd ` set data \<and>
                    tag \<in> set (ContentDetails.tags d) \<and> tag \<notin> set (removeTags c)}
            else {})))"
proof (intro conjI impI)
  assume a: "0 \<le> depth c \<and> slug \<noteq> SENTINEL"
  obtain d' wl' nb where "bfs_loop (fst (build_links simplify c data)) (depth c) [slug, SENTINEL] [] = Some (d', wl', nb)"
    and "slug \<in> set nb"
    using bfs_loop_start [of "fst (build_links simplify c data)" "depth c" slug] a by blast
  with a show "\<exists>nb. neighbourhood simplify c data slug = Some nb \<and> slug \<in> set nb"
    by (simp add: neighbourhood_def Let_def)
next
  assume "depth c < 0"
  from neighbourhood_unbounded [OF this, of simplify data slug]
  obtain nb where nb: "neighbourhood simplify c data slug = Some nb"
    and s: "set nb = validLinks simplify data \<union>
              (if showTags c then set (snd (build_links simplify c data)) else {})"
    by blast
  have "(\<Union>e\<in>set data. set (localTags simplify c (snd e))) =
        {simplify (''tags/'' @ tag) | tag d. d \<in> snd ` set data \<and>
            tag \<in> set (ContentDetails.tags d) \<and> tag \<notin> set (removeTags c)}"
    by (auto simp: localTags_def)
  with nb s show "\<exists>nb. neighbourhood simplify c data slug = Some nb \<and>
         set nb = simplify ` fst ` set data \<union>
           (if showTags c
            then {simplify (''tags/'' @ tag) | tag d. d \<in> snd ` set data \<and>
                    tag \<in> set (ContentDetails.tags d) \<and> tag \<notin> set (removeTags c)}
            else {})"
    by (simp add: set_snd_build_links validLinks_image)
qed

theorem neighbourhood_focus_or_all_witness:
  "(\<exists>nb. neighbourhood (\<lambda>s. s) (hops 0) chain ''B'' = Some nb \<and> ''B'' \<in> set nb) \<and>
   (\<exists>nb. neighbourhood (\<lambda>s. s) (hops (- 1)) chain ''B'' = Some nb \<and> set nb = {''A'', ''B'', ''C''})"
proof -
  have "0 \<le> depth (hops 0) \<and> ''B'' \<noteq> SENTINEL" "depth (hops (- 1)) < 0"
    by (simp_all add: hops_def SENTINEL_def)
  with neighbourhood_focus_or_all [of "hops 0" "''B''" "\<lambda>s. s" chain]
    neighbourhood_focus_or_all [of "hops (- 1)" "''B''" "\<lambda>s. s" chain]
  show ?thesis by (auto simp: hops_def chain_def)
qed

text \<open>
  C2 as stated fails for the focus \<^verbatim>\<open>__SENTINEL\<close>: with hop limit 1 the loop takes the focus
  for the marker twice and returns the empty set.
\<close>

theorem neighbourhood_focus_counterexample:
  "0 \<le> depth (hops 1) \<and> neighbourhood (\<lambda>s. s) (hops 1) marked ''__SENTINEL'' = Some []"
  by (simp add: neighbourhood_def marked_build)
     (simp add: hops_def marked_links_def bfs_loop.simps SENTINEL_def pushed_def set_add_def)

text \<open>
  C3. An edge of the full edge list is in the rendered link set exactly when its source
  and its target are both in the neighbourhood set.
\<close>

theorem rendered_links_iff:
  "\<exists>nb g. neighbourhood simplify c data slug = Some nb \<and> graphData simplify c data slug = Some g \<and>
     (\<forall>l. l \<in> set (links g) \<longleftrightarrow>
        l \<in> set (fst (build_links simplify c data)) \<and> source l \<in> set nb \<and> target l \<in> set nb)"
proof -
  obtain nb where "neighbourhood simplify c data slug = Some nb"
    using neighbourhood_returns [of simplify c data slug] by blast
  then show ?thesis by (auto simp: graphData_def mk_graphData_def)
qed

theorem rendered_links_iff_witness:
  "\<exists>g. graphData (\<lambda>s. s) (hops 0) chain ''B'' = Some g \<and> links g = []"
proof -
  have B: "neighbourhood (\<lambda>s. s) (hops 0) chain ''B'' = Some [''B'']"
    by (simp add: neighbourhood_def chain_build)
       (simp add: hops_def chain_links_def bfs_loop.simps SENTINEL_def pushed_def set_add_def)
  from rendered_links_iff [of "\<lambda>s. s" "hops 0" chain "''B''"]
  obtain nb g where nb: "neighbourhood (\<lambda>s. s) (hops 0) chain ''B'' = Some nb"
    and g: "graphData (\<lambda>s. s) (hops 0) chain ''B'' = Some g"
    and iff: "\<And>l. l \<in> set (links g) \<longleftrightarrow>
        l \<in> set (fst (build_links (\<lambda>s. s) (hops 0) chain)) \<and> source l \<in> set nb \<and> target l \<in> set nb"
    by blast
  from nb B have nb_eq: "nb = [''B'']" by simp
  have "l \<notin> set (links g)" for l
    unfolding iff nb_eq chain_build by (auto simp: chain_links_def)
  then have "links g = []" by (cases "links g") auto
  with g show ?thesis by simp
qed

section \<open>Claims on the full edge list\<close>






section \<open>Tag display on and off\<close>












lemma id_mk_node [simp]: "id' (mk_node data url) = url"
  by (simp add: mk_node_def)








section \<open>The link objects after d3 has resolved them\<close>

lemma find_node_lookup:
  "s \<in> id' ` set ns \<Longrightarrow> find_node ns s = Some (lookup_node ns s) \<and> id' (lookup_node ns s) = s"
proof -
  assume "s \<in> id' ` set ns"
  then have ne: "filter (\<lambda>n. id' n = s) ns \<noteq> []"
    by (auto simp: filter_empty_conv)
  then have "last (filter (\<lambda>n. id' n = s) ns) \<in> set (filter (\<lambda>n. id' n = s) ns)"
    by (rule last_in_set)
  then have "id' (lookup_node ns s) = s" by (simp add: lookup_node_def)
  moreover from ne have "find_node ns s = Some (lookup_node ns s)"
    by (cases "filter (\<lambda>n. id' n = s) ns") (simp_all add: find_node_def lookup_node_def)
  ultimately show ?thesis by simp
qed

lemma resolve_Slug: "s \<in> id' ` set ns \<Longrightarrow> resolve ns (Slug s) = Inr (Node (lookup_node ns s))"
  by (simp add: resolve_def find_node_lookup)

lemma store_inv_alloc: "store_inv ns ls {} (alloc ls)"
  by (simp add: store_inv_def alloc_def)

lemma initialize_store_inv:
  assumes "store_inv ns ls done store" and "distinct as" and "set as \<inter> done = {}"
    and "\<forall>a\<in>set as. a < length ls \<and> source (ls ! a) \<in> id' ` set ns \<and> target (ls ! a) \<in> id' ` set ns"
  shows "\<exists>store'. initialize ns as store = Inr store' \<and> store_inv ns ls (done \<union> set as) store'"
  using assms
proof (induction as arbitrary: store "done")
  case Nil
  then show ?case by simp
next
  case (Cons a as)
  from Cons.prems have a: "a < length ls" "a \<notin> done" "a \<notin> set as"
    and ids: "source (ls ! a) \<in> id' ` set ns" "target (ls ! a) \<in> id' ` set ns"
    by auto
  from Cons.prems(1) a have cur: "store ! a = \<lparr>source' = Slug (source (ls ! a)), target' = Slug (target (ls ! a))\<rparr>"
    by (simp add: store_inv_def)
  let ?store = "store[a := resolved ns (ls ! a)]"
  have step: "initialize ns (a # as) store = initialize ns as ?store"
    by (simp add: cur resolve_Slug [OF ids(1)] resolve_Slug [OF ids(2)] resolved_def)
  have inv: "store_inv ns ls (insert a done) ?store"
    using Cons.prems(1) a by (auto simp: store_inv_def nth_list_update)
  have "\<exists>store'. initialize ns as ?store = Inr store' \<and> store_inv ns ls (insert a done \<union> set as) store'"
    by (rule Cons.IH [OF inv]) (use Cons.prems a in auto)
  with step show ?case by simp
qed

lemma endpoint_id_resolved:
  assumes "source l \<in> id' ` set ns" and "target l \<in> id' ` set ns"
  shows "endpoint_id (source' (resolved ns l)) = Some (source l)"
    and "endpoint_id (target' (resolved ns l)) = Some (target l)"
  using assms by (simp_all add: resolved_def endpoint_id_def find_node_lookup)

lemma length_filter_nth:
  "length (filter (\<lambda>a. Q (ls ! a)) [0..<length ls]) = length (filter Q ls)"
proof -
  have "filter Q ls = filter Q (map ((!) ls) [0..<length ls])" by (simp add: map_nth)
  also have "\<dots> = map ((!) ls) (filter (\<lambda>a. Q (ls ! a)) [0..<length ls])"
    by (simp add: filter_map comp_def)
  finally show ?thesis by simp
qed

lemma map_filter_nth:
  "map ((!) ls) (filter (\<lambda>a. Q (ls ! a)) [0..<length ls]) = filter Q ls"
proof -
  have "filter Q ls = filter Q (map ((!) ls) [0..<length ls])" by (simp add: map_nth)
  then show ?thesis by (simp add: filter_map comp_def)
qed

lemma numLinks_store_inv:
  assumes inv: "store_inv ns ls (set (graph_link_addrs ls nb)) store" and ns: "id' ` set ns = set nb"
  shows "numLinks store (length ls) d =
         incident (filter (\<lambda>l. source l \<in> set nb \<and> target l \<in> set nb) ls) (id' d)"
proof -
  let ?P = "\<lambda>l. source l \<in> set nb \<and> target l \<in> set nb"
  have "endpoint_id (source' (store ! a)) = Some (id' d) \<or> endpoint_id (target' (store ! a)) = Some (id' d)
        \<longleftrightarrow> ?P (ls ! a) \<and> (source (ls ! a) = id' d \<or> target (ls ! a) = id' d)"
    if "a \<in> set [0..<length ls]" for a
  proof (cases "?P (ls ! a)")
    case True
    from that have "a < length ls" by simp
    moreover from True that have "a \<in> set (graph_link_addrs ls nb)"
      by (simp add: graph_link_addrs_def)
    ultimately have "store ! a = resolved ns (ls ! a)"
      using inv unfolding store_inv_def by simp
    with True ns show ?thesis by (simp add: endpoint_id_resolved)
  next
    case False
    from that have "a < length ls" by simp
    moreover from False have "a \<notin> set (graph_link_addrs ls nb)"
      by (simp add: graph_link_addrs_def)
    ultimately have "store ! a = \<lparr>source' = Slug (source (ls ! a)), target' = Slug (target (ls ! a))\<rparr>"
      using inv unfolding store_inv_def by simp
    with False show ?thesis by (auto simp: endpoint_id_def)
  qed
  then have "numLinks store (length ls) d =
      length (filter (\<lambda>a. ?P (ls ! a) \<and> (source (ls ! a) = id' d \<or> target (ls ! a) = id' d)) [0..<length ls])"
    unfolding numLinks_def by (intro arg_cong [where f = length] filter_cong refl)
  also have "\<dots> = length (filter (\<lambda>l. ?P l \<and> (source l = id' d \<or> target l = id' d)) ls)"
    by (rule length_filter_nth)
  finally show ?thesis by (simp add: incident_def conj_commute)
qed

lemma lines_store_inv:
  assumes inv: "store_inv ns ls (set (graph_link_addrs ls nb)) store"
  shows "map (\<lambda>a. store ! a) (graph_link_addrs ls nb) =
         map (resolved ns) (filter (\<lambda>l. source l \<in> set nb \<and> target l \<in> set nb) ls)"
proof -
  have "map (\<lambda>a. store ! a) (graph_link_addrs ls nb) = map (\<lambda>a. resolved ns (ls ! a)) (graph_link_addrs ls nb)"
    using inv by (intro map_cong refl) (auto simp: store_inv_def graph_link_addrs_def)
  also have "\<dots> = map (resolved ns) (map ((!) ls) (graph_link_addrs ls nb))" by simp
  also have "\<dots> = map (resolved ns) (filter (\<lambda>l. source l \<in> set nb \<and> target l \<in> set nb) ls)"
    unfolding graph_link_addrs_def
    using map_filter_nth [of ls "\<lambda>l. source l \<in> set nb \<and> target l \<in> set nb"] by simp
  finally show ?thesis .
qed

lemma ids_mk_graphData: "id' ` set (nodes (mk_graphData data ls nb)) = set nb"
  by (auto simp: mk_graphData_def image_iff)

lemma renderGraph_draw:
  assumes "neighbourhood simplify c data (simplify fullSlug) = Some nb"
  shows "renderGraph simplify visited c data fullSlug =
         Some (Inr (draw (simplify fullSlug) visited
                      (mk_graphData data (fst (build_links simplify c data)) nb)))"
proof -
  let ?ls = "fst (build_links simplify c data)"
  let ?g = "mk_graphData data ?ls nb"
  let ?as = "graph_link_addrs ?ls nb"
  have "\<exists>store. initialize (nodes ?g) ?as (alloc ?ls) = Inr store \<and>
          store_inv (nodes ?g) ?ls ({} \<union> set ?as) store"
    by (rule initialize_store_inv [OF store_inv_alloc])
       (auto simp: graph_link_addrs_def ids_mk_graphData)
  then obtain store where init: "initialize (nodes ?g) ?as (alloc ?ls) = Inr store"
    and inv: "store_inv (nodes ?g) ?ls (set ?as) store" by auto
  have r: "nodeRadius store (length ?ls) d = 2 + sqrt (real (incident (links ?g) (id' d)))" for d
    unfolding nodeRadius_def numLinks_store_inv [OF inv ids_mk_graphData]
    by (simp add: mk_graphData_def)
  have l: "map (\<lambda>a. store ! a) ?as = map (resolved (nodes ?g)) (links ?g)"
    unfolding lines_store_inv [OF inv] by (simp add: mk_graphData_def)
  show ?thesis
    by (simp add: renderGraph_def Let_def assms init r l draw_def)
qed

section \<open>Claims on the renderers\<close>

lemma graphData_Some:
  "graphData simplify c data slug = Some g \<longleftrightarrow>
   (\<exists>nb. neighbourhood simplify c data slug = Some nb \<and>
      g = mk_graphData data (fst (build_links simplify c data)) nb)"
  by (auto simp: graphData_def)

lemma renderGraph_graphData:
  "graphData simplify c data (simplify fullSlug) = Some g \<Longrightarrow>
   renderGraph simplify visited c data fullSlug = Some (Inr (draw (simplify fullSlug) visited g))"
  by (auto simp: graphData_Some renderGraph_draw)






lemma home_graphData:
  "graphData (\<lambda>s. s) (hops 0) home ''a'' =
     Some \<lparr>nodes = [\<lparr>id' = ''a'', text' = ''A'', tags' = []\<rparr>], links = []\<rparr>"
  by (simp add: graphData_def neighbourhood_def build_links_def page_step_def validLinks_def
      home_def hops_def mk_graphData_def)
     (simp add: bfs_loop.simps SENTINEL_def pushed_def set_add_def mk_node_def)

lemma home_more_graphData:
  "graphData (\<lambda>s. s) (hops 0) home_more ''a'' =
     Some \<lparr>nodes = [\<lparr>id' = ''a'', text' = ''A'', tags' = []\<rparr>], links = []\<rparr>"
  by (simp add: graphData_def neighbourhood_def build_links_def page_step_def validLinks_def
      home_more_def hops_def mk_graphData_def)
     (simp add: bfs_loop.simps SENTINEL_def pushed_def set_add_def mk_node_def)

text \<open>
  C6, as amended. The force-directed renderer and the horizontal tree renderer depend on
  the content index and the configuration only through the bounded node and edge set: two
  indexes and configurations with the same \<^verbatim>\<open>graphData\<close>, focus and visited set give
  the same circles (node, radius, fill) and lines, and the same tree data. The two radial
  renderers take their data from the content index alone, whatever the focus, the visited
  set and the configuration.
\<close>

theorem renderers_depend_on_graphData:
  assumes "graphData s1 c1 data1 (s1 f1) = Some g" and "graphData s2 c2 data2 (s2 f2) = Some g"
    and "s1 f1 = s2 f2"
  shows "renderGraph s1 visited c1 data1 f1 = renderGraph s2 visited c2 data2 f2 \<and>
     renderTreeGraph s1 visited c1 data1 f1 = renderTreeGraph s2 visited c2 data2 f2 \<and>
     renderRadialGraph s1 visited c1 data1 f1 = renderRadialGraph s3 visited3 c3 data1 f3 \<and>
     renderRadialTidyGraph s1 visited c1 data1 f1 = renderRadialTidyGraph s3 visited3 c3 data1 f3"
  using assms
  by (simp add: renderGraph_graphData renderTreeGraph_def renderRadialGraph_def
      renderRadialTidyGraph_def)

theorem renderers_depend_on_graphData_witness:
  "graphData (\<lambda>s. s) (hops 0) home ''a'' = graphData (\<lambda>s. s) (hops 0) home_more ''a'' \<and>
   renderGraph (\<lambda>s. s) [''b''] (hops 0) home ''a'' =
     renderGraph (\<lambda>s. s) [''b''] (hops 0) home_more ''a'' \<and>
   renderTreeGraph (\<lambda>s. s) [''b''] (hops 0) home ''a'' =
     renderTreeGraph (\<lambda>s. s) [''b''] (hops 0) home_more ''a''"
  using renderers_depend_on_graphData [OF home_graphData home_more_graphData refl,
      of "[''b'']" "\<lambda>s. s" "[]" "hops 0" "''a''"]
  by (simp add: home_graphData home_more_graphData)

text \<open>
  C6 as stated fails for the radial renderers: the two indexes give the same bounded node
  and edge set for the page a with hop limit 0, and different data for \<^verbatim>\<open>d3.stratify\<close>,
  since the second index has one page more.
\<close>

theorem radial_counterexample:
  "graphData (\<lambda>s. s) (hops 0) home ''a'' = graphData (\<lambda>s. s) (hops 0) home_more ''a'' \<and>
   renderRadialGraph (\<lambda>s. s) [] (hops 0) home ''a'' \<noteq>
     renderRadialGraph (\<lambda>s. s) [] (hops 0) home_more ''a'' \<and>
   renderRadialTidyGraph (\<lambda>s. s) [] (hops 0) home ''a'' \<noteq>
     renderRadialTidyGraph (\<lambda>s. s) [] (hops 0) home_more ''a''"
  by (simp add: home_graphData home_more_graphData)
     (simp add: renderRadialGraph_def renderRadialTidyGraph_def dataRadial_def radial_entry_def
        home_def home_more_def)

section \<open>Writing and reading back the visited set\<close>

lemma hex_val_hex_digit: "k < 16 \<Longrightarrow> hex_val (hex_digit k) = Some k"
  by (auto simp: hex_val_def hex_digit_def Let_def)

lemma lex_string_cons:
  "c \<noteq> CHR 0x22 \<Longrightarrow> c \<noteq> CHR 0x5C \<Longrightarrow> \<not> (of_char c :: nat) < 32 \<Longrightarrow>
   lex_string (c # zs) =
     (case lex_string zs of Inl err \<Rightarrow> Inl err | Inr (s, rest) \<Rightarrow> Inr (c # s, rest))"
  by simp

lemma lex_string_unescape:
  "unescape e = Some ch \<Longrightarrow> e \<noteq> CHR ''u'' \<Longrightarrow>
   lex_string (CHR 0x5C # e # zs) =
     (case lex_string zs of Inl err \<Rightarrow> Inl err | Inr (s, rest) \<Rightarrow> Inr (ch # s, rest))"
  by simp

lemma lex_string_u00:
  assumes "(of_char c :: nat) < 32"
  shows "lex_string (CHR 0x5C # CHR ''u'' # CHR ''0'' # CHR ''0'' #
            hex_digit (of_char c div 16) # hex_digit (of_char c mod 16) # zs) =
         (case lex_string zs of Inl err \<Rightarrow> Inl err | Inr (s, rest) \<Rightarrow> Inr (c # s, rest))"
proof -
  let ?n = "of_char c :: nat"
  have h: "hex_val (hex_digit (?n div 16)) = Some (?n div 16)"
    "hex_val (hex_digit (?n mod 16)) = Some (?n mod 16)"
    using assms by (simp_all add: hex_val_hex_digit)
  have z: "hex_val CHR ''0'' = Some 0" by (simp add: hex_val_def)
  have "hex4 (CHR ''0'' # CHR ''0'' # hex_digit (?n div 16) # hex_digit (?n mod 16) # zs) = Some ?n"
    by (simp add: hex4_def h z)
  moreover have "\<not> 256 \<le> ?n" using assms by simp
  moreover have "char_of ?n = c" by simp
  ultimately show ?thesis by (simp cong: sum.case_cong)
qed

lemma lex_string_escape:
  "lex_string (escape c @ zs) =
     (case lex_string zs of Inl err \<Rightarrow> Inl err | Inr (s, rest) \<Rightarrow> Inr (c # s, rest))"
proof -
  consider "c = CHR 0x22" | "c = CHR 0x5C" | "c = CHR 0x08" | "c = CHR 0x0C" | "c = CHR 0x0A"
    | "c = CHR 0x0D" | "c = CHR 0x09"
    | "c \<notin> {CHR 0x22, CHR 0x5C, CHR 0x08, CHR 0x0C, CHR 0x0A, CHR 0x0D, CHR 0x09}" "(of_char c :: nat) < 32"
    | "c \<notin> {CHR 0x22, CHR 0x5C, CHR 0x08, CHR 0x0C, CHR 0x0A, CHR 0x0D, CHR 0x09}" "\<not> (of_char c :: nat) < 32"
    by blast
  then show ?thesis
  proof cases
    case 8
    then have "escape c @ zs = CHR 0x5C # CHR ''u'' # CHR ''0'' # CHR ''0'' #
            hex_digit (of_char c div 16) # hex_digit (of_char c mod 16) # zs"
      by (simp add: escape_def)
    then show ?thesis by (simp only: lex_string_u00 [OF 8(2)])
  next
    case 9
    then have "escape c @ zs = c # zs" by (simp add: escape_def)
    with 9 show ?thesis by (simp only: lex_string_cons) simp
  qed (simp_all add: escape_def unescape_def cong: sum.case_cong)
qed

lemma lex_string_close: "lex_string (CHR 0x22 # rest) = Inr ([], rest)"
  by simp

lemma lex_string_quoted: "lex_string (concat (map escape s) @ CHR 0x22 # rest) = Inr (s, rest)"
  by (induction s) (simp_all add: lex_string_escape lex_string_close del: lex_string.simps)

lemma skip_ws_quote: "skip_ws (quote s @ rest) = quote s @ rest"
  by (simp add: skip_ws_def quote_def is_ws_def)

lemma parse_value_quote: "parse_value (Suc n) (quote s @ rest) = Inr (JString s, rest)"
proof -
  have "skip_ws (quote s @ rest) = CHR 0x22 # (concat (map escape s) @ CHR 0x22 # rest)"
    by (simp add: skip_ws_def quote_def is_ws_def)
  then show ?thesis by (simp add: lex_string_quoted del: lex_string.simps)
qed

lemma parse_elements_comma:
  "parse_value n s = Inr (v, CHR '','' # rest) \<Longrightarrow>
   parse_elements (Suc n) s acc = parse_elements n rest (acc @ [v])"
  by (simp add: skip_ws_def is_ws_def)

lemma parse_elements_close:
  "parse_value n s = Inr (v, CHR '']'' # rest) \<Longrightarrow>
   parse_elements (Suc n) s acc = Inr (JArray (acc @ [v]), rest)"
  by (simp add: skip_ws_def is_ws_def)

lemma parse_value_open:
  "skip_ws cs = d # ds \<Longrightarrow> d \<noteq> CHR '']'' \<Longrightarrow>
   parse_value (Suc n) (CHR ''['' # cs) = parse_elements n cs []"
  by (simp add: skip_ws_def is_ws_def)

lemma parse_elements_strings:
  "parse_elements (Suc (Suc (length xs + k)))
     (join_comma (map quote (x # xs)) @ CHR '']'' # rest) acc =
   Inr (JArray (acc @ map JString (x # xs)), rest)"
proof (induction xs arbitrary: x acc)
  case Nil
  have "parse_value (Suc k) (quote x @ CHR '']'' # rest) = Inr (JString x, CHR '']'' # rest)"
    by (rule parse_value_quote)
  from parse_elements_close [OF this] show ?case by simp
next
  case (Cons y ys)
  have shape: "join_comma (map quote (x # y # ys)) @ CHR '']'' # rest =
        quote x @ CHR '','' # (join_comma (map quote (y # ys)) @ CHR '']'' # rest)"
    by simp
  have "parse_value (Suc (Suc (length ys + k)))
          (quote x @ CHR '','' # (join_comma (map quote (y # ys)) @ CHR '']'' # rest)) =
        Inr (JString x, CHR '','' # (join_comma (map quote (y # ys)) @ CHR '']'' # rest))"
    by (rule parse_value_quote)
  from parse_elements_comma [OF this, of acc]
  have "parse_elements (Suc (Suc (length (y # ys) + k)))
          (join_comma (map quote (x # y # ys)) @ CHR '']'' # rest) acc =
        parse_elements (Suc (Suc (length ys + k)))
          (join_comma (map quote (y # ys)) @ CHR '']'' # rest) (acc @ [JString x])"
    unfolding shape by simp
  also have "\<dots> = Inr (JArray ((acc @ [JString x]) @ map JString (y # ys)), rest)"
    by (rule Cons.IH)
  finally show ?case by simp
qed

lemma length_join_quote: "2 * length xs \<le> length (join_comma (map quote xs))"
  by (induction xs rule: induct_list012) (simp_all add: quote_def)

lemma JSON_parse_stringify: "JSON_parse (JSON_stringify xs) = Inr (JArray (map JString xs))"
proof (cases xs)
  case Nil
  then show ?thesis by (simp add: JSON_parse_def JSON_stringify_def skip_ws_def is_ws_def)
next
  case (Cons x ys)
  let ?body = "join_comma (map quote (x # ys)) @ CHR '']'' # []"
  let ?n = "length (JSON_stringify xs)"
  have "?body = quote x @ drop (length (quote x)) ?body"
    by (cases ys) simp_all
  then have "skip_ws ?body = quote x @ drop (length (quote x)) ?body"
    by (metis skip_ws_quote)
  then have sk: "skip_ws ?body = CHR 0x22 # (concat (map escape x) @ [CHR 0x22]) @ drop (length (quote x)) ?body"
    by (simp add: quote_def)
  have "length ys + 2 \<le> ?n"
    using length_join_quote [of xs] by (simp add: JSON_stringify_def Cons)
  then obtain k where k: "?n = Suc (Suc (length ys + k))"
    by (metis add_2_eq_Suc' le_Suc_ex add.commute add.assoc)
  have "parse_value (Suc ?n) (CHR ''['' # ?body) = parse_elements ?n ?body []"
    by (rule parse_value_open [OF sk]) simp
  also have "\<dots> = Inr (JArray ([] @ map JString (x # ys)), [])"
    unfolding k by (rule parse_elements_strings)
  finally have "parse_value (Suc ?n) (JSON_stringify xs) = Inr (JArray (map JString xs), [])"
    by (simp add: JSON_stringify_def Cons)
  then show ?thesis by (simp add: JSON_parse_def skip_ws_def)
qed

lemma the_strings_map: "the_strings (map JString xs) = Some xs"
  by (induction xs) simp_all

lemma count_list_distinct: "distinct xs \<Longrightarrow> x \<in> set xs \<Longrightarrow> count_list xs x = 1"
  by (induction xs) (auto simp: count_list_0_iff)

lemma foldl_set_add_distinct:
  "distinct (acc @ xs) \<Longrightarrow> foldl (\<lambda>acc x. set_add x acc) acc xs = acc @ xs"
  by (induction xs arbitrary: acc) (auto simp: set_add_def)

lemma new_Set_distinct: "new_Set v = Inr xs \<Longrightarrow> distinct xs"
  by (auto simp: new_Set_def distinct_foldl_set_add split: json.splits option.splits)

lemma getVisited_distinct: "getVisited item = Inr xs \<Longrightarrow> distinct xs"
  by (auto simp: getVisited_def new_Set_distinct split: sum.splits)

lemma getVisited_stringify: "distinct xs \<Longrightarrow> getVisited (Some (JSON_stringify xs)) = Inr xs"
  using foldl_set_add_distinct [of "[]" xs]
  by (simp add: getVisited_def JSON_parse_stringify new_Set_def the_strings_map)


section \<open>Claims on the visited set\<close>




text \<open>
  C10, as amended. When \<open>getVisited\<close> reads a set of identifiers from the store (the item
  is missing, or parses to an array of strings, to a string or to \<^verbatim>\<open>null\<close>),
  \<open>addToVisited\<close> stores an array from which \<open>getVisited\<close> reads the former set with the
  identifier added: nothing is removed, the identifier occurs once, and adding an
  identifier that is already there leaves the set as it was.
\<close>

theorem addToVisited_union:
  assumes "getVisited item = Inr visited"
  shows "\<exists>item' visited'. addToVisited slug item = Inr (Some item') \<and>
     JSON_parse item' = Inr (JArray (map JString visited')) \<and>
     getVisited (Some item') = Inr visited' \<and>
     set visited' = set visited \<union> {slug} \<and> count_list visited' slug = 1 \<and>
     (slug \<in> set visited \<longrightarrow> visited' = visited)"
proof -
  let ?v = "set_add slug visited"
  from getVisited_distinct [OF assms] have d: "distinct ?v" by simp
  have "addToVisited slug item = Inr (Some (JSON_stringify ?v))"
    by (simp add: addToVisited_def assms)
  moreover have "JSON_parse (JSON_stringify ?v) = Inr (JArray (map JString ?v))"
    by (rule JSON_parse_stringify)
  moreover have "getVisited (Some (JSON_stringify ?v)) = Inr ?v"
    by (rule getVisited_stringify [OF d])
  moreover have "count_list ?v slug = 1"
    using d by (simp add: count_list_distinct)
  moreover have "slug \<in> set visited \<longrightarrow> ?v = visited" by (simp add: set_add_def)
  ultimately show ?thesis by auto
qed

theorem addToVisited_union_witness:
  "getVisited (Some (JSON_stringify [''a'', ''b''])) = Inr [''a'', ''b''] \<and>
   (\<exists>item' visited'. addToVisited ''c'' (Some (JSON_stringify [''a'', ''b''])) = Inr (Some item') \<and>
      getVisited (Some item') = Inr visited' \<and> set visited' = {''a'', ''b'', ''c''})"
proof -
  have h: "getVisited (Some (JSON_stringify [''a'', ''b''])) = Inr [''a'', ''b'']" by code_simp
  from addToVisited_union [OF h, of "''c''"] show ?thesis using h by auto
qed

text \<open>
  C10 as stated fails for a store that parses to a value that is not iterable: the text
  \<^verbatim>\<open>{}\<close> parses to the empty object, \<^verbatim>\<open>new Set\<close> throws a type error for it, and
  \<open>addToVisited\<close> stores nothing.
\<close>

theorem addToVisited_object_counterexample:
  "JSON_parse ''{}'' = Inr (JObject []) \<and> addToVisited ''x'' (Some ''{}'') = Inl TypeError"
  by code_simp

end
